theory Spec2Isabelle
  imports Main "HOL-Library.Sublist"
begin

section \<open>fileWatcher.py: data model\<close>

text \<open>
  The program reads YAML documents that map a definition name to a dictionary. The
  values the program reads from these dictionaries are a single string, a list of
  strings, or (under the key \<open>searches\<close>) a list of search dictionaries; these are
  the shapes the embedding covers. A search dictionary is read at the three keys
  \<open>name\<close>, \<open>paths\<close> and \<open>patterns\<close> only, so it is a record of three optional
  fields, \<open>None\<close> standing for an absent key.
\<close>

subsection \<open>Regular expressions as used by \<open>re.match\<close>\<close>

text \<open>
  Patterns are given in parsed form. The fragment covers literals, the dot (any
  character but a newline), alternation, concatenation and the star; anchors and
  groups are outside it.
\<close>

datatype regex =
    Nothing
  | Empty
  | Lit char
  | Dot
  | Alt regex regex
  | Cat regex regex
  | Rep regex

fun accepts_empty :: "regex \<Rightarrow> bool" where
  "accepts_empty Nothing = False"
| "accepts_empty Empty = True"
| "accepts_empty (Lit c) = False"
| "accepts_empty Dot = False"
| "accepts_empty (Alt r s) = (accepts_empty r \<or> accepts_empty s)"
| "accepts_empty (Cat r s) = (accepts_empty r \<and> accepts_empty s)"
| "accepts_empty (Rep r) = True"

fun after :: "char \<Rightarrow> regex \<Rightarrow> regex" where
  "after c Nothing = Nothing"
| "after c Empty = Nothing"
| "after c (Lit d) = (if c = d then Empty else Nothing)"
| "after c Dot = (if c = CHR 0x0A then Nothing else Empty)"
| "after c (Alt r s) = Alt (after c r) (after c s)"
| "after c (Cat r s) =
     (if accepts_empty r then Alt (Cat (after c r) s) (after c s)
      else Cat (after c r) s)"
| "after c (Rep r) = Cat (after c r) (Rep r)"

text \<open>
  \<open>re.match(pattern, string)\<close>: the pattern has to match at the beginning of the
  string, and need not reach its end. The match object is truthy also for an empty
  match.
\<close>

fun re_match :: "regex \<Rightarrow> string \<Rightarrow> bool" where
  "re_match r [] = accepts_empty r"
| "re_match r (c # cs) = (accepts_empty r \<or> re_match (after c r) cs)"

text \<open>
  \<open>re.search(pattern, string)\<close>, which the program does not call: the pattern may
  match at any position of the string. It is the reading of the specification
  (``regular-expression search, not full match'').
\<close>

fun re_search :: "regex \<Rightarrow> string \<Rightarrow> bool" where
  "re_search r [] = re_match r []"
| "re_search r (c # cs) = (re_match r (c # cs) \<or> re_search r cs)"

subsection \<open>Dictionaries of the configuration\<close>

datatype strs = Str string | Strs "string list"

record search_defn =
  name :: "string option"
  paths :: "strs option"
  patterns :: "regex list option"

datatype field = Plain strs | Searches "search_defn list"

type_synonym defn = "string \<rightharpoonup> field"

datatype error = Exit int | KeyError string | IndexError | AttributeError | TypeError

subsection \<open>class MonitorAnyFileChange\<close>

datatype event_kind = Created | Deleted | Modified | Moved

record change_event =
  kind :: event_kind
  src_path :: string

record handler =
  path :: string
  monitor_defn :: defn
  monitor :: search_defn
  files :: "string set"

definition new_handler :: "string \<Rightarrow> defn \<Rightarrow> search_defn \<Rightarrow> handler" where
  "new_handler p d m = \<lparr>path = p, monitor_defn = d, monitor = m, files = {}\<rparr>"

definition has_change :: "handler \<Rightarrow> bool" where
  "has_change h = (files h \<noteq> {})"

definition get_files :: "handler \<Rightarrow> string set" where
  "get_files h = files h"

text \<open>The \<open>for\<close> loop of \<open>_handle_event\<close> with its \<open>break\<close>.\<close>

fun match_loop :: "regex list \<Rightarrow> string \<Rightarrow> string set \<Rightarrow> string set" where
  "match_loop [] p fs = fs"
| "match_loop (r # rs) p fs = (if re_match r p then insert p fs else match_loop rs p fs)"

definition handle_event :: "handler \<Rightarrow> change_event \<Rightarrow> handler" where
  "handle_event h ev =
     (case patterns (monitor h) of
        Some ps \<Rightarrow> h\<lparr>files := match_loop ps (src_path ev) (files h)\<rparr>
      | None \<Rightarrow>
          (if src_path ev \<noteq> [] then h\<lparr>files := insert (src_path ev) (files h)\<rparr> else h))"

text \<open>\<open>on_created\<close>, \<open>on_deleted\<close>, \<open>on_modified\<close> and \<open>on_moved\<close> all call \<open>_handle_event\<close>.\<close>

fun dispatch :: "handler \<Rightarrow> change_event \<Rightarrow> handler" where
  "dispatch h ev =
     (case kind ev of
        Created \<Rightarrow> handle_event h ev
      | Deleted \<Rightarrow> handle_event h ev
      | Modified \<Rightarrow> handle_event h ev
      | Moved \<Rightarrow> handle_event h ev)"

section \<open>class FilesWatcher\<close>

record args =
  yaml_paths :: "string list"
  repeat :: bool
  exit_on_error :: bool
  skip_file :: "string option"

text \<open>
  The fields of the class, and the lines the program has written to standard output
  so far (\<open>printed\<close>). The observer of the watchdog library is not part of the model.
\<close>

record files_watcher =
  args :: args
  event_handlers :: "handler list"
  monitor_defns_defaults :: defn
  printed :: "string list"

subsection \<open>\<open>_start_monitors\<close> and \<open>_add_monitor\<close>\<close>

definition add_monitor :: "files_watcher \<Rightarrow> string \<Rightarrow> defn \<Rightarrow> search_defn \<Rightarrow> files_watcher" where
  "add_monitor fw p d m = fw\<lparr>event_handlers := event_handlers fw @ [new_handler p d m]\<rparr>"

definition print_line :: "files_watcher \<Rightarrow> string \<Rightarrow> files_watcher" where
  "print_line fw l = fw\<lparr>printed := printed fw @ [l]\<rparr>"

text \<open>
  \<open>for path in glob.iglob(path_glob, recursive=True)\<close>: the expansion of a glob is a
  parameter \<open>iglob\<close>, the state carried is \<open>found_path\<close> and the watcher.
\<close>

fun iglob_loop :: "string list \<Rightarrow> defn \<Rightarrow> search_defn \<Rightarrow> bool \<times> files_watcher \<Rightarrow> bool \<times> files_watcher" where
  "iglob_loop [] d m (found_path, fw) = (found_path, fw)"
| "iglob_loop (p # ps) d m (found_path, fw) = iglob_loop ps d m (True, add_monitor fw p d m)"

text \<open>
  \<open>for i_glob, path_glob in enumerate(paths)\<close>: \<open>i_glob\<close> and \<open>path_glob\<close> are
  assigned together, so one optional value stands for both (\<open>None\<close> before the
  first iteration).
\<close>

fun paths_loop ::
  "(string \<Rightarrow> string list) \<Rightarrow> defn \<Rightarrow> search_defn \<Rightarrow> string list \<Rightarrow>
   bool \<times> string option \<times> files_watcher \<Rightarrow> bool \<times> string option \<times> files_watcher" where
  "paths_loop iglob d m [] st = st"
| "paths_loop iglob d m (g # gs) (found_path, path_glob, fw) =
     (case iglob_loop (iglob g) d m (found_path, fw) of
        (found_path', fw') \<Rightarrow> paths_loop iglob d m gs (found_path', Some g, fw'))"

text \<open>The body of \<open>for search_defn in searches\<close>.\<close>

definition search_step ::
  "(string \<Rightarrow> string list) \<Rightarrow> defn \<Rightarrow> search_defn \<Rightarrow> files_watcher \<Rightarrow> (error + unit) \<times> files_watcher" where
  "search_step iglob d m fw =
     (case paths m of
        None \<Rightarrow> (Inl (KeyError ''paths''), fw)
      | Some ps \<Rightarrow>
          (case paths_loop iglob d m (case ps of Str s \<Rightarrow> [s] | Strs ss \<Rightarrow> ss) (False, None, fw) of
             (found_path, path_glob, fw1) \<Rightarrow>
               (if \<not> found_path \<and> path_glob \<noteq> None then
                  (let fw2 = print_line fw1
                       (''ERROR: No glob expansion for: '' @ the path_glob @ ''.'')
                   in if exit_on_error (args fw2) then (Inl (Exit 1), fw2) else (Inr (), fw2))
                else (Inr (), fw1))))"

fun searches_loop ::
  "(string \<Rightarrow> string list) \<Rightarrow> defn \<Rightarrow> search_defn list \<Rightarrow> files_watcher \<Rightarrow> (error + unit) \<times> files_watcher" where
  "searches_loop iglob d [] fw = (Inr (), fw)"
| "searches_loop iglob d (m # ms) fw =
     (case search_step iglob d m fw of
        (Inl e, fw1) \<Rightarrow> (Inl e, fw1)
      | (Inr u, fw1) \<Rightarrow> searches_loop iglob d ms fw1)"

text \<open>
  The body of \<open>for defn_name, monitor_defn in monitor_defns.items()\<close>. The merge
  \<open>defaults | monitor_defn\<close> of Python is \<open>++\<close> on maps: the right operand wins.
\<close>

definition only_paths :: "string list \<Rightarrow> search_defn" where
  "only_paths ss = \<lparr>name = None, paths = Some (Strs ss), patterns = None\<rparr>"

definition defn_step ::
  "(string \<Rightarrow> string list) \<Rightarrow> string \<Rightarrow> string \<times> defn \<Rightarrow> files_watcher \<Rightarrow> (error + unit) \<times> files_watcher" where
  "defn_step iglob source entry fw =
     (case entry of (defn_name, monitor_defn0) \<Rightarrow>
        if defn_name = ''__defaults__'' then (Inr (), fw\<lparr>monitor_defns_defaults := monitor_defn0\<rparr>)
        else
          (let merged = (monitor_defns_defaults fw ++ monitor_defn0)
                 (''__name'' \<mapsto> Plain (Str defn_name),
                  ''__key'' \<mapsto> Plain (Str (source @ '':'' @ defn_name)))
           in case merged ''searches'' of
                None \<Rightarrow> (Inl (KeyError ''searches''), fw)
              | Some (Plain (Str s)) \<Rightarrow> searches_loop iglob merged [only_paths [s]] fw
              | Some (Plain (Strs [])) \<Rightarrow> (Inl IndexError, fw)
              | Some (Plain (Strs ss)) \<Rightarrow> searches_loop iglob merged [only_paths ss] fw
              | Some (Searches []) \<Rightarrow> (Inl IndexError, fw)
              | Some (Searches ms) \<Rightarrow> searches_loop iglob merged ms fw))"

fun defns_loop ::
  "(string \<Rightarrow> string list) \<Rightarrow> string \<Rightarrow> (string \<times> defn) list \<Rightarrow> files_watcher \<Rightarrow> (error + unit) \<times> files_watcher" where
  "defns_loop iglob source [] fw = (Inr (), fw)"
| "defns_loop iglob source (entry # entries) fw =
     (case defn_step iglob source entry fw of
        (Inl e, fw1) \<Rightarrow> (Inl e, fw1)
      | (Inr u, fw1) \<Rightarrow> defns_loop iglob source entries fw1)"

text \<open>
  \<open>monitor_defns\<close> is the parsed YAML document, a dictionary in document order: an
  association list.
\<close>

definition start_monitors ::
  "(string \<Rightarrow> string list) \<Rightarrow> string \<Rightarrow> (string \<times> defn) list \<Rightarrow> files_watcher \<Rightarrow> (error + unit) \<times> files_watcher" where
  "start_monitors iglob source monitor_defns fw =
     defns_loop iglob source monitor_defns (fw\<lparr>monitor_defns_defaults := Map.empty\<rparr>)"

text \<open>
  \<open>_setup_observers\<close>, without the observer: each YAML file comes with the document
  that \<open>yaml.load\<close> returns for it.
\<close>

fun yaml_loop ::
  "(string \<Rightarrow> string list) \<Rightarrow> (string \<times> (string \<times> defn) list) list \<Rightarrow> files_watcher \<Rightarrow> (error + unit) \<times> files_watcher" where
  "yaml_loop iglob [] fw = (Inr (), fw)"
| "yaml_loop iglob ((yaml_file, monitor_defns) # rest) fw =
     (case start_monitors iglob yaml_file monitor_defns fw of
        (Inl e, fw1) \<Rightarrow> (Inl e, fw1)
      | (Inr u, fw1) \<Rightarrow> yaml_loop iglob rest fw1)"

definition setup_observers ::
  "(string \<Rightarrow> string list) \<Rightarrow> (string \<times> (string \<times> defn) list) list \<Rightarrow> files_watcher \<Rightarrow> (error + unit) \<times> files_watcher" where
  "setup_observers iglob docs fw =
     yaml_loop iglob docs (print_line (fw\<lparr>event_handlers := []\<rparr>) ''Monitoring:'')"

subsection \<open>\<open>_run_commands\<close>\<close>

text \<open>
  \<open>str.replace(old, new)\<close>: the occurrences of \<open>old\<close> are replaced from left to
  right, each search resuming after the occurrence just replaced. For an empty
  \<open>old\<close> Python puts \<open>new\<close> before every character and at the end.
\<close>

function str_replace :: "string \<Rightarrow> string \<Rightarrow> string \<Rightarrow> string" where
  "str_replace old new s =
     (if old = [] then new @ concat (map (\<lambda>c. c # new) s)
      else if s = [] then []
      else if prefix old s then new @ str_replace old new (drop (length old) s)
      else hd s # str_replace old new (tl s))"
  by pat_completeness auto
termination
  by (relation "measure (\<lambda>(old, new, s). length s)") auto

declare str_replace.simps [simp del]

text \<open>
  What the program does that a caller can observe, in the order it happens: a line
  printed, a command run by \<open>subprocess.run\<close> with the exit code it returned, and a
  call of \<open>_run_commands\<close> with the \<open>__key\<close> of its definition and its
  \<open>commands_key\<close>.
\<close>

datatype action = Printed string | Called string string | Ran string int

text \<open>
  The shell is a parameter: running a command in a world \<open>'w\<close> returns the exit
  code and the world after it. The \<open>for command in commands\<close> loop returns at the
  first exit code that is not zero.
\<close>

type_synonym 'w shell = "string \<Rightarrow> 'w \<Rightarrow> int \<times> 'w"

fun commands_loop :: "'w shell \<Rightarrow> defn \<Rightarrow> string list \<Rightarrow> 'w \<Rightarrow> (error + int) \<times> 'w \<times> action list" where
  "commands_loop sh d [] w = (Inr 0, w, [])"
| "commands_loop sh d (c # cs) w =
     (case d ''__name'' of
        None \<Rightarrow> (Inl (KeyError ''__name''), w, [])
      | Some (Plain (Str n)) \<Rightarrow>
          (let command = str_replace ''_MONITOR_NAME_'' n c in
           case sh command w of
             (returncode, w1) \<Rightarrow>
               if returncode \<noteq> 0 then (Inr returncode, w1, [Ran command returncode])
               else (case commands_loop sh d cs w1 of
                       (r, w2, acts) \<Rightarrow> (r, w2, Ran command returncode # acts)))
      | Some _ \<Rightarrow> (Inl TypeError, w, []))"

text \<open>
  A list of search dictionaries under a command key makes \<open>command.replace\<close> fail
  on its first element; an empty list runs nothing.
\<close>

definition run_commands :: "'w shell \<Rightarrow> defn \<Rightarrow> string \<Rightarrow> 'w \<Rightarrow> (error + int) \<times> 'w \<times> action list" where
  "run_commands sh d commands_key w =
     (case d commands_key of
        None \<Rightarrow> (Inr 0, w, [])
      | Some (Plain (Str s)) \<Rightarrow> commands_loop sh d [s] w
      | Some (Plain (Strs ss)) \<Rightarrow> commands_loop sh d ss w
      | Some (Searches ms) \<Rightarrow> (if ms = [] then (Inr 0, w, []) else (Inl AttributeError, w, [])))"

subsection \<open>\<open>start\<close>, after the observer has stopped\<close>

definition has_skip_file :: "args \<Rightarrow> (string \<Rightarrow> bool) \<Rightarrow> bool" where
  "has_skip_file a path_exists =
     (case skip_file a of None \<Rightarrow> False | Some f \<Rightarrow> f \<noteq> [] \<and> path_exists f)"

text \<open>
  The branch taken for a handler whose key has just been added to
  \<open>triggered_monitor_defn_keys\<close>.
\<close>

definition run_pipeline :: "'w shell \<Rightarrow> bool \<Rightarrow> defn \<Rightarrow> string \<Rightarrow> 'w \<Rightarrow> (error + unit) \<times> 'w \<times> action list" where
  "run_pipeline sh skip d monitor_key w =
     (if skip then
        (case run_commands sh d ''skipped'' w of
           (Inl e, w1, acts) \<Rightarrow> (Inl e, w1, Called monitor_key ''skipped'' # acts)
         | (Inr res, w1, acts) \<Rightarrow> (Inr (), w1, Called monitor_key ''skipped'' # acts))
      else
        (case run_commands sh d ''commands'' w of
           (Inl e, w1, acts) \<Rightarrow>
             (Inl e, w1, Printed (''Executing '' @ monitor_key) # Called monitor_key ''commands'' # acts)
         | (Inr res, w1, acts) \<Rightarrow>
             (let hook = (if res = 0 then ''completed'' else ''error'') in
              case run_commands sh d hook w1 of
                (Inl e, w2, acts2) \<Rightarrow>
                  (Inl e, w2, Printed (''Executing '' @ monitor_key) # Called monitor_key ''commands'' # acts
                     @ Called monitor_key hook # acts2)
              | (Inr res2, w2, acts2) \<Rightarrow>
                  (Inr (), w2, Printed (''Executing '' @ monitor_key) # Called monitor_key ''commands'' # acts
                     @ Called monitor_key hook # acts2 @ [Printed []]))))"

text \<open>
  \<open>for event_handler in self.event_handlers\<close>, carrying
  \<open>triggered_monitor_defn_keys\<close>. A \<open>__key\<close> that is a list cannot be looked up in
  a set.
\<close>

fun handlers_loop ::
  "'w shell \<Rightarrow> bool \<Rightarrow> handler list \<Rightarrow> string set \<Rightarrow> 'w \<Rightarrow> (error + string set) \<times> 'w \<times> action list" where
  "handlers_loop sh skip [] triggered w = (Inr triggered, w, [])"
| "handlers_loop sh skip (h # hs) triggered w =
     (if has_change h then
        (case monitor_defn h ''__key'' of
           None \<Rightarrow> (Inl (KeyError ''__key''), w, [])
         | Some (Plain (Str monitor_key)) \<Rightarrow>
             if monitor_key \<notin> triggered then
               (case run_pipeline sh skip (monitor_defn h) monitor_key w of
                  (Inl e, w1, acts) \<Rightarrow> (Inl e, w1, acts)
                | (Inr u, w1, acts) \<Rightarrow>
                    (case handlers_loop sh skip hs (insert monitor_key triggered) w1 of
                       (r, w2, acts2) \<Rightarrow> (r, w2, acts @ acts2)))
             else handlers_loop sh skip hs triggered w
         | Some _ \<Rightarrow> (Inl TypeError, w, []))
      else handlers_loop sh skip hs triggered w)"

text \<open>
  The part of \<open>start\<close> that follows \<open>self.observer.join()\<close>. The handlers are taken
  with the files the observer has recorded in them; the existence of the skip file
  is asked once, before the loop.
\<close>

definition start_triggered ::
  "'w shell \<Rightarrow> (string \<Rightarrow> bool) \<Rightarrow> files_watcher \<Rightarrow> 'w \<Rightarrow> (error + string set) \<times> 'w \<times> action list" where
  "start_triggered sh path_exists fw w =
     handlers_loop sh (has_skip_file (args fw) path_exists) (event_handlers fw) {} w"

section \<open>Reference notions used to state the properties\<close>

text \<open>
  The list of commands a key of a definition declares, a single string standing for
  a list of one string; an absent key declares nothing.
\<close>

definition command_list :: "field option \<Rightarrow> string list" where
  "command_list v =
     (case v of Some (Plain (Str s)) \<Rightarrow> [s] | Some (Plain (Strs ss)) \<Rightarrow> ss | _ \<Rightarrow> [])"

text \<open>
  The exit codes that a list of commands returns when every command is run, in the
  declared order, each in the world its predecessor left.
\<close>

fun exit_codes :: "'w shell \<Rightarrow> string list \<Rightarrow> 'w \<Rightarrow> int list" where
  "exit_codes sh [] w = []"
| "exit_codes sh (c # cs) w = (case sh c w of (rc, w1) \<Rightarrow> rc # exit_codes sh cs w1)"

text \<open>
  Of such a list of exit codes: how many commands run when the run stops after the
  first code that is not zero, and the code of the phase (the first code that is
  not zero, 0 when there is none).
\<close>

definition executed :: "int list \<Rightarrow> nat" where
  "executed codes = min (length codes) (Suc (length (takeWhile (\<lambda>rc. rc = 0) codes)))"

definition phase_result :: "int list \<Rightarrow> int" where
  "phase_result codes = (case dropWhile (\<lambda>rc. rc = 0) codes of [] \<Rightarrow> 0 | rc # rest \<Rightarrow> rc)"

text \<open>
  The number of times the pipeline of the definition with key \<open>k\<close> is entered in a
  trace: each entry starts with a call for \<open>commands\<close> or for \<open>skipped\<close>.
\<close>

definition pipeline_runs :: "string \<Rightarrow> action list \<Rightarrow> nat" where
  "pipeline_runs k acts =
     length (filter (\<lambda>a. a = Called k ''commands'' \<or> a = Called k ''skipped'') acts)"

text \<open>The keys of the handlers that hold a change.\<close>

fun changed_keys :: "handler list \<Rightarrow> string set" where
  "changed_keys [] = {}"
| "changed_keys (h # hs) =
     (if has_change h then
        (case monitor_defn h ''__key'' of Some (Plain (Str k)) \<Rightarrow> {k} | _ \<Rightarrow> {})
      else {}) \<union> changed_keys hs"

text \<open>
  The \<open>__defaults__\<close> record in force after the entries \<open>pre\<close> of one document,
  none being in force at its start.
\<close>

fun defaults_after :: "(string \<times> defn) list \<Rightarrow> defn \<Rightarrow> defn" where
  "defaults_after [] dflt = dflt"
| "defaults_after ((n, d) # es) dflt = defaults_after es (if n = ''__defaults__'' then d else dflt)"

definition source_defaults :: "(string \<times> defn) list \<Rightarrow> defn" where
  "source_defaults pre = defaults_after pre Map.empty"

section \<open>Example inputs\<close>

text \<open>A shell in which the command \<open>false\<close> exits with 1 and every other command with 0.\<close>

definition sh_false :: "unit shell" where
  "sh_false c w = (if c = ''false'' then 1 else 0, w)"

text \<open>A handler for the pattern \<open>js\<close>, and one for the pattern \<open>.*js\<close>.\<close>

definition js_handler :: "regex \<Rightarrow> handler" where
  "js_handler r =
     \<lparr>path = ''/src'', monitor_defn = Map.empty,
      monitor = \<lparr>name = None, paths = Some (Str ''/src''), patterns = Some [r]\<rparr>,
      files = {}\<rparr>"

definition js :: regex where
  "js = Cat (Lit CHR ''j'') (Lit CHR ''s'')"

text \<open>A definition named \<open>build\<close> with the given fields besides \<open>__name\<close> and \<open>__key\<close>.\<close>

definition build_defn :: "(string \<times> field) list \<Rightarrow> defn" where
  "build_defn kvs =
     (map_of kvs)(''__name'' \<mapsto> Plain (Str ''build''), ''__key'' \<mapsto> Plain (Str ''w.yaml:build''))"

text \<open>
  A handler that holds a change, and a watcher over given handlers with a given
  \<open>--exit_on_error\<close> and \<open>--skip_file\<close>.
\<close>

definition changed_handler :: "string \<Rightarrow> defn \<Rightarrow> handler" where
  "changed_handler p d =
     \<lparr>path = p, monitor_defn = d, monitor = only_paths [p], files = {p @ ''/x''}\<rparr>"

definition watcher :: "bool \<Rightarrow> string option \<Rightarrow> handler list \<Rightarrow> files_watcher" where
  "watcher strict skip hs =
     \<lparr>args = \<lparr>yaml_paths = [''w.yaml''], repeat = False, exit_on_error = strict, skip_file = skip\<rparr>,
      event_handlers = hs, monitor_defns_defaults = Map.empty, printed = []\<rparr>"

text \<open>
  A file system in which only the glob \<open>src\<close> expands, to the path \<open>src\<close>; a
  document whose \<open>__defaults__\<close> come first, and one whose \<open>__defaults__\<close> come
  after the definition \<open>build\<close>.
\<close>

definition glob_src :: "string \<Rightarrow> string list" where
  "glob_src g = (if g = ''src'' then [''src''] else [])"

definition defaults_first :: "(string \<times> defn) list" where
  "defaults_first =
     [(''__defaults__'', [''commands'' \<mapsto> Plain (Str ''make all''),
                          ''completed'' \<mapsto> Plain (Str ''echo done'')]),
      (''build'', [''searches'' \<mapsto> Plain (Str ''src''),
                   ''commands'' \<mapsto> Plain (Str ''make build'')])]"

definition defaults_last :: "(string \<times> defn) list" where
  "defaults_last =
     [(''build'', [''searches'' \<mapsto> Plain (Str ''src'')]),
      (''__defaults__'', [''commands'' \<mapsto> Plain (Str ''make all'')])]"

section \<open>Recording of change events\<close>

lemma match_loop_files:
  "match_loop ps p fs = (if \<exists>r \<in> set ps. re_match r p then insert p fs else fs)"
  by (induction ps) auto

text \<open>
  Claim C1, as the program has it. An event of any kind delivered to a handler is
  recorded in these cases and no other: the search declares \<open>patterns\<close> and one of
  them matches at the beginning of the event's path (\<open>re.match\<close>: anchored at the
  start of the path, not at its end), or the search declares no \<open>patterns\<close> and the
  path is not empty. Recording adds the path to the set of files of the handler.
\<close>

theorem handle_event_records:
  "get_files (dispatch h ev) =
     (if (case patterns (monitor h) of
            Some ps \<Rightarrow> \<exists>r \<in> set ps. re_match r (src_path ev)
          | None \<Rightarrow> src_path ev \<noteq> [])
      then insert (src_path ev) (get_files h) else get_files h)"
  by (cases "kind ev")
     (simp_all add: get_files_def handle_event_def match_loop_files split: option.splits)

text \<open>
  With the pattern \<open>.*js\<close> the path \<open>/src/app.js\<close> is recorded: the pattern matches
  from the beginning of the path.
\<close>

theorem handle_event_records_witness:
  "get_files (dispatch (js_handler (Cat (Rep Dot) js)) \<lparr>kind = Modified, src_path = ''/src/app.js''\<rparr>)
     = {''/src/app.js''}"
  using handle_event_records
    [of "js_handler (Cat (Rep Dot) js)" "\<lparr>kind = Modified, src_path = ''/src/app.js''\<rparr>"]
  by (simp add: js_handler_def js_def get_files_def)

text \<open>
  Claim C1 as stated fails: the pattern \<open>js\<close> is found in \<open>/src/app.js\<close> by a
  search, and the event is not recorded.
\<close>

theorem search_match_not_recorded:
  "re_search js ''/src/app.js'' \<and>
   ''/src/app.js'' \<notin>
     get_files (dispatch (js_handler js) \<lparr>kind = Modified, src_path = ''/src/app.js''\<rparr>)"
  by (simp add: js_handler_def js_def get_files_def handle_event_def)

section \<open>The commands of one hook list\<close>

lemma executed_Cons: "executed (rc # codes) = (if rc = 0 then Suc (executed codes) else 1)"
  by (simp add: executed_def)

lemma phase_result_Cons: "phase_result (rc # codes) = (if rc = 0 then phase_result codes else rc)"
  by (simp add: phase_result_def)

lemma commands_loop_trace:
  assumes "d ''__name'' = Some (Plain (Str nm))"
  shows "fst (commands_loop sh d cs w) =
           Inr (phase_result (exit_codes sh (map (str_replace ''_MONITOR_NAME_'' nm) cs) w))
       \<and> snd (snd (commands_loop sh d cs w)) =
           take (executed (exit_codes sh (map (str_replace ''_MONITOR_NAME_'' nm) cs) w))
             (map2 Ran (map (str_replace ''_MONITOR_NAME_'' nm) cs)
                (exit_codes sh (map (str_replace ''_MONITOR_NAME_'' nm) cs) w))"
  using assms
proof (induction cs arbitrary: w)
  case Nil
  show ?case by (simp add: phase_result_def executed_def)
next
  case (Cons c cs)
  obtain rc w1 where run: "sh (str_replace ''_MONITOR_NAME_'' nm c) w = (rc, w1)"
    by (cases "sh (str_replace ''_MONITOR_NAME_'' nm c) w")
  show ?case
  proof (cases "rc = 0")
    case True
    with Cons.IH [OF Cons.prems, of w1] run Cons.prems show ?thesis
      by (cases "commands_loop sh d cs w1") (simp add: executed_Cons phase_result_Cons)
  next
    case False
    with run Cons.prems show ?thesis
      by (simp add: executed_Cons phase_result_Cons)
  qed
qed

lemma run_commands_trace:
  assumes "d ''__name'' = Some (Plain (Str nm))" and "\<forall>ms. d k \<noteq> Some (Searches ms)"
  shows "fst (run_commands sh d k w) =
           Inr (phase_result (exit_codes sh (map (str_replace ''_MONITOR_NAME_'' nm) (command_list (d k))) w))
       \<and> snd (snd (run_commands sh d k w)) =
           take (executed (exit_codes sh (map (str_replace ''_MONITOR_NAME_'' nm) (command_list (d k))) w))
             (map2 Ran (map (str_replace ''_MONITOR_NAME_'' nm) (command_list (d k)))
                (exit_codes sh (map (str_replace ''_MONITOR_NAME_'' nm) (command_list (d k))) w))"
proof (cases "d k")
  case None
  then show ?thesis
    by (simp add: run_commands_def command_list_def phase_result_def executed_def)
next
  case (Some v)
  with assms(2) obtain ss where v: "v = Plain ss" by (cases v) auto
  show ?thesis
  proof (cases ss)
    case (Str s)
    with Some v assms(1) commands_loop_trace [of d nm sh "[s]" w] show ?thesis
      by (simp add: run_commands_def command_list_def)
  next
    case (Strs xs)
    with Some v assms(1) commands_loop_trace [of d nm sh xs w] show ?thesis
      by (simp add: run_commands_def command_list_def)
  qed
qed

lemma exit_codes_length: "length (exit_codes sh cs w) = length cs"
  by (induction cs arbitrary: w) (auto split: prod.splits)

lemma executed_all_zero: "\<forall>rc \<in> set codes. rc = 0 \<Longrightarrow> executed codes = length codes"
  by (simp add: executed_def takeWhile_eq_all_conv [THEN iffD2])

lemma phase_result_all_zero: "\<forall>rc \<in> set codes. rc = 0 \<Longrightarrow> phase_result codes = 0"
  by (simp add: phase_result_def dropWhile_eq_Nil_conv [THEN iffD2])

lemma executed_first_failure:
  "\<forall>x \<in> set pre. x = 0 \<Longrightarrow> rc \<noteq> 0 \<Longrightarrow> executed (pre @ rc # post) = Suc (length pre)"
  by (simp add: executed_def)

lemma phase_result_first_failure:
  "\<forall>x \<in> set pre. x = 0 \<Longrightarrow> rc \<noteq> 0 \<Longrightarrow> phase_result (pre @ rc # post) = rc"
  by (simp add: phase_result_def)

text \<open>
  Claim C3. Let \<open>cmds\<close> be the commands that \<open>commands\<close> declares, with the
  placeholder replaced, and \<open>codes\<close> the exit codes they return when run in that
  order. If every code is zero (also when the key is absent and nothing is
  declared), the phase runs all of them in order and returns 0. If the code \<open>rc\<close>
  at some position is the first that is not zero, the phase runs the commands up to
  and including that position, no later one, and returns \<open>rc\<close>.
\<close>

theorem commands_stop_at_first_failure:
  assumes "d ''__name'' = Some (Plain (Str nm))"
    and "\<forall>ms. d ''commands'' \<noteq> Some (Searches ms)"
    and "cmds = map (str_replace ''_MONITOR_NAME_'' nm) (command_list (d ''commands''))"
    and "codes = exit_codes sh cmds w"
  shows "((\<forall>rc \<in> set codes. rc = 0) \<longrightarrow>
            fst (run_commands sh d ''commands'' w) = Inr 0
          \<and> snd (snd (run_commands sh d ''commands'' w)) = map2 Ran cmds codes)
       \<and> (codes = pre @ rc # post \<and> (\<forall>x \<in> set pre. x = 0) \<and> rc \<noteq> 0 \<longrightarrow>
            fst (run_commands sh d ''commands'' w) = Inr rc
          \<and> snd (snd (run_commands sh d ''commands'' w)) =
              map2 Ran (take (Suc (length pre)) cmds) (pre @ [rc]))"
proof -
  have len: "length codes = length cmds"
    using assms(4) by (simp add: exit_codes_length)
  have tr: "fst (run_commands sh d ''commands'' w) = Inr (phase_result codes)"
    "snd (snd (run_commands sh d ''commands'' w)) = take (executed codes) (map2 Ran cmds codes)"
    using run_commands_trace [OF assms(1,2), of sh w] assms(3,4) by simp_all
  have ok: "fst (run_commands sh d ''commands'' w) = Inr 0
          \<and> snd (snd (run_commands sh d ''commands'' w)) = map2 Ran cmds codes"
    if "\<forall>rc \<in> set codes. rc = 0"
    using that tr len by (simp add: executed_all_zero phase_result_all_zero)
  have ko: "fst (run_commands sh d ''commands'' w) = Inr rc
          \<and> snd (snd (run_commands sh d ''commands'' w)) =
              map2 Ran (take (Suc (length pre)) cmds) (pre @ [rc])"
    if "codes = pre @ rc # post" "\<forall>x \<in> set pre. x = 0" "rc \<noteq> 0"
    using that tr by (simp add: executed_first_failure phase_result_first_failure take_map take_zip)
  from ok ko show ?thesis by blast
qed

text \<open>The commands \<open>true\<close>, \<open>false\<close>, \<open>true\<close>: the third is not run and the phase returns 1.\<close>

theorem commands_stop_at_first_failure_witness:
  "fst (run_commands sh_false (build_defn [(''commands'', Plain (Strs [''true'', ''false'', ''true'']))]) ''commands'' ())
     = Inr 1
   \<and> snd (snd (run_commands sh_false (build_defn [(''commands'', Plain (Strs [''true'', ''false'', ''true'']))]) ''commands'' ()))
     = [Ran ''true'' 0, Ran ''false'' 1]"
  using commands_stop_at_first_failure
    [of "build_defn [(''commands'', Plain (Strs [''true'', ''false'', ''true'']))]" "''build''"
        "[''true'', ''false'', ''true'']" "[0, 1, 0]" sh_false "()" "[0]" 1 "[0]"]
  by (simp add: build_defn_def command_list_def sh_false_def str_replace.simps)

section \<open>The loop over the event handlers\<close>

lemma commands_loop_only_ran:
  "a \<in> set (snd (snd (commands_loop sh d cs w))) \<Longrightarrow>
   \<exists>c \<in> set cs. \<exists>nm rc. d ''__name'' = Some (Plain (Str nm)) \<and> a = Ran (str_replace ''_MONITOR_NAME_'' nm c) rc"
proof (induction cs arbitrary: w)
  case Nil
  then show ?case by simp
next
  case (Cons c cs)
  show ?case
  proof (cases "d ''__name''")
    case None
    with Cons.prems show ?thesis by simp
  next
    case (Some v)
    show ?thesis
    proof (cases "\<exists>nm. v = Plain (Str nm)")
      case False
      with Some Cons.prems show ?thesis
        by (cases v; simp split: strs.splits)
    next
      case True
      then obtain nm where v: "v = Plain (Str nm)" by blast
      obtain rc w1 where run: "sh (str_replace ''_MONITOR_NAME_'' nm c) w = (rc, w1)"
        by (cases "sh (str_replace ''_MONITOR_NAME_'' nm c) w")
      obtain r w2 acts where rec: "commands_loop sh d cs w1 = (r, w2, acts)"
        by (cases "commands_loop sh d cs w1")
      from Cons.prems Some v run rec
      have "a = Ran (str_replace ''_MONITOR_NAME_'' nm c) rc \<or> a \<in> set acts"
        by (auto simp: Let_def split: if_splits)
      then show ?thesis
      proof
        assume "a = Ran (str_replace ''_MONITOR_NAME_'' nm c) rc"
        with Some v show ?thesis by simp
      next
        assume "a \<in> set acts"
        with rec Cons.IH [of w1] show ?thesis by auto
      qed
    qed
  qed
qed

lemma run_commands_only_ran:
  "a \<in> set (snd (snd (run_commands sh d k w))) \<Longrightarrow>
   \<exists>c \<in> set (command_list (d k)). \<exists>nm rc.
      d ''__name'' = Some (Plain (Str nm)) \<and> a = Ran (str_replace ''_MONITOR_NAME_'' nm c) rc"
proof (cases "d k")
  case None
  assume "a \<in> set (snd (snd (run_commands sh d k w)))"
  with None show ?thesis by (simp add: run_commands_def)
next
  case (Some v)
  assume a: "a \<in> set (snd (snd (run_commands sh d k w)))"
  show ?thesis
  proof (cases v)
    case (Plain ss)
    show ?thesis
    proof (cases ss)
      case (Str s)
      with a Some Plain commands_loop_only_ran [of a sh d "[s]" w] show ?thesis
        by (simp add: run_commands_def command_list_def)
    next
      case (Strs xs)
      with a Some Plain commands_loop_only_ran [of a sh d xs w] show ?thesis
        by (simp add: run_commands_def command_list_def)
    qed
  next
    case (Searches ms)
    with a Some show ?thesis by (simp add: run_commands_def split: if_splits)
  qed
qed

lemma run_commands_no_call:
  assumes "run_commands sh d k w = (r, w1, acts)"
  shows "Called mk hk \<notin> set acts" and "Printed l \<notin> set acts"
  using run_commands_only_ran [of "Called mk hk" sh d k w]
        run_commands_only_ran [of "Printed l" sh d k w] assms by auto

lemma run_commands_runs:
  assumes "run_commands sh d k w = (r, w1, acts)"
  shows "pipeline_runs mk acts = 0"
  using run_commands_no_call(1) [OF assms] by (auto simp: pipeline_runs_def filter_empty_conv)

lemma pipeline_runs_simps:
  "pipeline_runs k [] = 0"
  "pipeline_runs k (a # acts) =
     (if a = Called k ''commands'' \<or> a = Called k ''skipped'' then Suc (pipeline_runs k acts)
      else pipeline_runs k acts)"
  "pipeline_runs k (acts @ acts') = pipeline_runs k acts + pipeline_runs k acts'"
  by (simp_all add: pipeline_runs_def)

lemma run_pipeline_calls:
  assumes "run_pipeline sh skip d mk w = (r, w1, acts)"
  shows "pipeline_runs k acts = (if k = mk then 1 else 0)"
    and "Called k hk \<in> set acts \<Longrightarrow>
           k = mk \<and> (if skip then hk = ''skipped'' else hk \<in> {''commands'', ''completed'', ''error''})"
    and "Called mk (if skip then ''skipped'' else ''commands'') \<in> set acts"
proof -
  obtain ra wa aa where a: "run_commands sh d ''skipped'' w = (ra, wa, aa)"
    by (cases "run_commands sh d ''skipped'' w")
  obtain rb wb ab where b: "run_commands sh d ''commands'' w = (rb, wb, ab)"
    by (cases "run_commands sh d ''commands'' w")
  obtain rc wc ac where c: "run_commands sh d ''completed'' wb = (rc, wc, ac)"
    by (cases "run_commands sh d ''completed'' wb")
  obtain re we ae where e: "run_commands sh d ''error'' wb = (re, we, ae)"
    by (cases "run_commands sh d ''error'' wb")
  note nc = run_commands_no_call(1) [OF a] run_commands_no_call(1) [OF b]
    run_commands_no_call(1) [OF c] run_commands_no_call(1) [OF e]
  note nr = run_commands_runs [OF a] run_commands_runs [OF b]
    run_commands_runs [OF c] run_commands_runs [OF e]
  show "pipeline_runs k acts = (if k = mk then 1 else 0)"
    using assms a b c e nr [of k]
    by (auto simp: run_pipeline_def pipeline_runs_simps Let_def split: sum.splits if_splits)
  show "k = mk \<and> (if skip then hk = ''skipped'' else hk \<in> {''commands'', ''completed'', ''error''})"
    if "Called k hk \<in> set acts"
    using that assms a b c e nc [of k hk]
    by (auto simp: run_pipeline_def Let_def split: sum.splits if_splits)
  show "Called mk (if skip then ''skipped'' else ''commands'') \<in> set acts"
    using assms a b c e
    by (auto simp: run_pipeline_def Let_def split: sum.splits if_splits)
qed

lemma handlers_loop_Cons_cases:
  obtains
    (Pass) "handlers_loop sh skip (h # hs) T w = handlers_loop sh skip hs T w"
      "\<not> has_change h \<or> (\<exists>mk. monitor_defn h ''__key'' = Some (Plain (Str mk)) \<and> mk \<in> T)"
  | (Bad) e where "handlers_loop sh skip (h # hs) T w = (Inl e, w, [])"
  | (Fail) mk e w1 acts where "has_change h" "monitor_defn h ''__key'' = Some (Plain (Str mk))"
      "mk \<notin> T" "run_pipeline sh skip (monitor_defn h) mk w = (Inl e, w1, acts)"
      "handlers_loop sh skip (h # hs) T w = (Inl e, w1, acts)"
  | (Go) mk w1 acts r w2 acts2 where "has_change h" "monitor_defn h ''__key'' = Some (Plain (Str mk))"
      "mk \<notin> T" "run_pipeline sh skip (monitor_defn h) mk w = (Inr (), w1, acts)"
      "handlers_loop sh skip hs (insert mk T) w1 = (r, w2, acts2)"
      "handlers_loop sh skip (h # hs) T w = (r, w2, acts @ acts2)"
proof (cases "has_change h")
  case False
  then show ?thesis using Pass by simp
next
  case True
  show ?thesis
  proof (cases "monitor_defn h ''__key''")
    case None
    with True show ?thesis using Bad by simp
  next
    case (Some v)
    show ?thesis
    proof (cases "\<exists>mk. v = Plain (Str mk)")
      case False
      with True Some have "handlers_loop sh skip (h # hs) T w = (Inl TypeError, w, [])"
        by (cases v; simp split: strs.splits)
      then show ?thesis using Bad by blast
    next
      case yes: True
      then obtain mk where v: "v = Plain (Str mk)" by blast
      show ?thesis
      proof (cases "mk \<in> T")
        case True
        with \<open>has_change h\<close> Some v show ?thesis using Pass by simp
      next
        case False
        obtain rp w1 acts where rp: "run_pipeline sh skip (monitor_defn h) mk w = (rp, w1, acts)"
          by (cases "run_pipeline sh skip (monitor_defn h) mk w")
        show ?thesis
        proof (cases rp)
          case (Inl e)
          with True Some v False rp show ?thesis using Fail [of mk e w1 acts] by simp
        next
          case (Inr u)
          obtain r w2 acts2 where rec: "handlers_loop sh skip hs (insert mk T) w1 = (r, w2, acts2)"
            by (cases "handlers_loop sh skip hs (insert mk T) w1")
          with True Some v False rp Inr show ?thesis using Go [of mk w1 acts r w2 acts2] by simp
        qed
      qed
    qed
  qed
qed

declare handlers_loop.simps [simp del]

lemma handlers_loop_calls:
  "handlers_loop sh skip hs T w = (r, w', acts) \<Longrightarrow> Called k hk \<in> set acts \<Longrightarrow>
   k \<notin> T \<and> (if skip then hk = ''skipped'' else hk \<in> {''commands'', ''completed'', ''error''})"
proof (induction hs arbitrary: T w r w' acts)
  case Nil
  then show ?case by (simp add: handlers_loop.simps)
next
  case (Cons h hs)
  show ?case
  proof (cases rule: handlers_loop_Cons_cases [of sh skip h hs T w])
    case Pass
    with Cons.prems have "handlers_loop sh skip hs T w = (r, w', acts)" by simp
    from Cons.IH [OF this Cons.prems(2)] show ?thesis .
  next
    case (Bad e)
    with Cons.prems show ?thesis by simp
  next
    case (Fail mk e w1 acts1)
    with Cons.prems run_pipeline_calls(2) [OF Fail(4), of k hk] show ?thesis by auto
  next
    case (Go mk w1 acts1 r2 w2 acts2)
    from Cons.prems Go have "Called k hk \<in> set acts1 \<or> Called k hk \<in> set acts2" by auto
    then show ?thesis
    proof
      assume "Called k hk \<in> set acts1"
      with run_pipeline_calls(2) [OF Go(4), of k hk] Go(3) show ?thesis by auto
    next
      assume "Called k hk \<in> set acts2"
      with Cons.IH [OF Go(5)] show ?thesis by auto
    qed
  qed
qed

lemma changed_keys_Cons:
  "changed_keys (h # hs) =
     (if has_change h then {k. monitor_defn h ''__key'' = Some (Plain (Str k))} else {}) \<union> changed_keys hs"
  by (auto split: option.splits field.splits strs.splits)

lemma handlers_loop_runs:
  "handlers_loop sh skip hs T w = (r, w', acts) \<Longrightarrow>
   pipeline_runs k acts \<le> (if k \<in> T then 0 else 1)
   \<and> (\<forall>T'. r = Inr T' \<longrightarrow>
         T' = T \<union> changed_keys hs \<and> pipeline_runs k acts = (if k \<in> T' - T then 1 else 0))"
proof (induction hs arbitrary: T w r w' acts)
  case Nil
  then show ?case by (auto simp: handlers_loop.simps pipeline_runs_simps)
next
  case (Cons h hs)
  show ?case
  proof (cases rule: handlers_loop_Cons_cases [of sh skip h hs T w])
    case Pass
    from Pass(2) have "T \<union> changed_keys (h # hs) = T \<union> changed_keys hs"
      by (auto simp: changed_keys_Cons)
    moreover from Pass(1) Cons.prems have "handlers_loop sh skip hs T w = (r, w', acts)" by simp
    note Cons.IH [OF this]
    ultimately show ?thesis by simp
  next
    case (Bad e)
    with Cons.prems show ?thesis by (auto simp: pipeline_runs_simps)
  next
    case (Fail mk e w1 acts1)
    with Cons.prems run_pipeline_calls(1) [OF Fail(4), of k] show ?thesis by auto
  next
    case (Go mk w1 acts1 r2 w2 acts2)
    from Go(1,2) have ck: "T \<union> changed_keys (h # hs) = insert mk T \<union> changed_keys hs"
      by (auto simp: changed_keys_Cons)
    from Cons.prems Go have acts: "acts = acts1 @ acts2" and r: "r = r2" by auto
    note p1 = run_pipeline_calls(1) [OF Go(4), of k]
    note ih = Cons.IH [OF Go(5)]
    show ?thesis
      using p1 ih Go(3) ck unfolding acts r pipeline_runs_simps
      by (auto split: if_splits)
  qed
qed

text \<open>
  Claim C2. In the trace of one cycle the pipeline of a definition key is entered at
  most once, whatever the number of its handlers that hold a change. When the loop
  ends without a Python exception, the set of triggered keys is the set of keys of
  the handlers that hold a change, and the pipeline is entered exactly once for each
  key of the set and never for another key.
\<close>

theorem each_definition_fires_once:
  "pipeline_runs k (snd (snd (start_triggered sh path_exists fw w))) \<le> 1
   \<and> (\<forall>T. fst (start_triggered sh path_exists fw w) = Inr T \<longrightarrow>
         T = changed_keys (event_handlers fw)
       \<and> pipeline_runs k (snd (snd (start_triggered sh path_exists fw w))) = (if k \<in> T then 1 else 0))"
proof -
  obtain r w' acts where st: "start_triggered sh path_exists fw w = (r, w', acts)"
    by (cases "start_triggered sh path_exists fw w")
  then have "handlers_loop sh (has_skip_file (args fw) path_exists) (event_handlers fw) {} w = (r, w', acts)"
    by (simp add: start_triggered_def)
  from handlers_loop_runs [OF this, of k] st show ?thesis by auto
qed

text \<open>Two watch targets of the definition \<open>build\<close> hold a change: its pipeline runs once.\<close>

theorem each_definition_fires_once_witness:
  "fst (start_triggered sh_false (\<lambda>f. False)
          (watcher False None
             [changed_handler ''/a'' (build_defn [(''commands'', Plain (Str ''make''))]),
              changed_handler ''/b'' (build_defn [(''commands'', Plain (Str ''make''))])]) ())
     = Inr {''w.yaml:build''}
   \<and> pipeline_runs ''w.yaml:build''
        (snd (snd (start_triggered sh_false (\<lambda>f. False)
          (watcher False None
             [changed_handler ''/a'' (build_defn [(''commands'', Plain (Str ''make''))]),
              changed_handler ''/b'' (build_defn [(''commands'', Plain (Str ''make''))])]) ()))) = 1"
proof -
  let ?fw = "watcher False None
             [changed_handler ''/a'' (build_defn [(''commands'', Plain (Str ''make''))]),
              changed_handler ''/b'' (build_defn [(''commands'', Plain (Str ''make''))])]"
  have ev: "fst (start_triggered sh_false (\<lambda>f. False) ?fw ()) = Inr {''w.yaml:build''}"
    by (simp add: start_triggered_def has_skip_file_def watcher_def changed_handler_def
        build_defn_def handlers_loop.simps has_change_def run_pipeline_def run_commands_def
        sh_false_def str_replace.simps)
  from each_definition_fires_once [of "''w.yaml:build''" sh_false "\<lambda>f. False" ?fw "()"] ev
  have "pipeline_runs ''w.yaml:build'' (snd (snd (start_triggered sh_false (\<lambda>f. False) ?fw ())))
          = (if ''w.yaml:build'' \<in> {''w.yaml:build''} then 1 else 0)"
    by blast
  with ev show ?thesis by simp
qed






lemma commands_loop_name_only:
  "d ''__name'' = d' ''__name'' \<Longrightarrow> commands_loop sh d cs w = commands_loop sh d' cs w"
  by (induction cs arbitrary: w)
     (auto simp: Let_def split: option.splits field.splits strs.splits prod.splits)

lemma run_commands_other_key:
  assumes "k \<noteq> k'" and "k' \<noteq> ''__name''"
  shows "run_commands sh (d(k' := x)) k w = run_commands sh d k w"
proof -
  have eq: "commands_loop sh (d(k' := x)) cs w = commands_loop sh d cs w" for cs
    using commands_loop_name_only [of "d(k' := x)" d sh cs w] assms(2) by simp
  show ?thesis
    unfolding run_commands_def eq using assms(1) by simp
qed

lemma run_pipeline_started:
  "run_pipeline sh skip (d(''started'' := x)) mk w = run_pipeline sh skip d mk w"
  by (auto simp: run_pipeline_def run_commands_other_key Let_def split: prod.splits sum.splits)

lemma handlers_loop_started:
  "handlers_loop sh skip (map (\<lambda>h. h\<lparr>monitor_defn := (monitor_defn h)(''started'' := v h)\<rparr>) hs) T w
     = handlers_loop sh skip hs T w"
  by (induction hs arbitrary: T w)
     (auto simp: handlers_loop.simps has_change_def run_pipeline_started
        split: option.splits field.splits strs.splits prod.splits sum.splits)

text \<open>
  Claim C9. Every call of \<open>_run_commands\<close> in a cycle is for one of the keys
  \<open>skipped\<close>, \<open>commands\<close>, \<open>completed\<close> and \<open>error\<close>, never for \<open>started\<close>; and
  the cycle is the same whatever the definitions hold under the key \<open>started\<close>.
\<close>

theorem started_hook_never_run:
  "(Called k hook \<in> set (snd (snd (start_triggered sh path_exists fw w))) \<longrightarrow>
      hook \<in> {''skipped'', ''commands'', ''completed'', ''error''})
   \<and> start_triggered sh path_exists
        (fw\<lparr>event_handlers :=
              map (\<lambda>h. h\<lparr>monitor_defn := (monitor_defn h)(''started'' := v h)\<rparr>) (event_handlers fw)\<rparr>) w
       = start_triggered sh path_exists fw w"
proof -
  obtain r w' acts where loop:
    "handlers_loop sh (has_skip_file (args fw) path_exists) (event_handlers fw) {} w = (r, w', acts)"
    by (cases "handlers_loop sh (has_skip_file (args fw) path_exists) (event_handlers fw) {} w")
  have "hook \<in> {''skipped'', ''commands'', ''completed'', ''error''}" if "Called k hook \<in> set acts"
    using handlers_loop_calls [OF loop that] by (auto split: if_splits)
  with loop show ?thesis
    by (simp add: start_triggered_def handlers_loop_started)
qed

text \<open>
  The definition \<open>build\<close> declares \<open>started\<close>: the cycle calls \<open>commands\<close> and
  \<open>completed\<close>, and \<open>echo starting\<close> is not run.
\<close>

theorem started_hook_never_run_witness:
  "snd (snd (start_triggered sh_false (\<lambda>f. False)
     (watcher False None
        [changed_handler ''/src''
           (build_defn [(''started'', Plain (Str ''echo starting'')),
                        (''commands'', Plain (Str ''make''))])]) ()))
     = [Printed ''Executing w.yaml:build'', Called ''w.yaml:build'' ''commands'', Ran ''make'' 0,
        Called ''w.yaml:build'' ''completed'', Printed []]
   \<and> ''completed'' \<in> {''skipped'', ''commands'', ''completed'', ''error''}"
proof -
  let ?fw = "watcher False None
        [changed_handler ''/src''
           (build_defn [(''started'', Plain (Str ''echo starting'')),
                        (''commands'', Plain (Str ''make''))])]"
  have ev: "snd (snd (start_triggered sh_false (\<lambda>f. False) ?fw ()))
     = [Printed ''Executing w.yaml:build'', Called ''w.yaml:build'' ''commands'', Ran ''make'' 0,
        Called ''w.yaml:build'' ''completed'', Printed []]"
    by (simp add: start_triggered_def has_skip_file_def watcher_def changed_handler_def
        build_defn_def handlers_loop.simps has_change_def run_pipeline_def run_commands_def
        sh_false_def str_replace.simps)
  then have "Called ''w.yaml:build'' ''completed'' \<in> set (snd (snd (start_triggered sh_false (\<lambda>f. False) ?fw ())))"
    by simp
  with started_hook_never_run [of "''w.yaml:build''" "''completed''" sh_false "\<lambda>f. False" ?fw "()"]
  have "''completed'' \<in> {''skipped'', ''commands'', ''completed'', ''error''}" by blast
  with ev show ?thesis by blast
qed

lemma handlers_loop_fire:
  assumes "has_change h" and "monitor_defn h ''__key'' = Some (Plain (Str mk))" and "mk \<notin> T"
  shows "handlers_loop sh skip (h # hs) T w =
     (case run_pipeline sh skip (monitor_defn h) mk w of
        (Inl e, w1, acts) \<Rightarrow> (Inl e, w1, acts)
      | (Inr u, w1, acts) \<Rightarrow>
          (case handlers_loop sh skip hs (insert mk T) w1 of
             (r, w2, acts2) \<Rightarrow> (r, w2, acts @ acts2)))"
  using assms by (simp add: handlers_loop.simps)



text \<open>
  Claim C4, as the program has it. When the loop reaches a handler that holds a
  change, whose key has not fired yet, and no skip file exists: after the
  \<open>commands\<close> phase has returned \<open>res\<close>, the hook called is \<open>completed\<close> when
  \<open>res\<close> is 0 and \<open>error\<close> otherwise; the commands of the hook list run in order
  and stop after the first exit code that is not zero, like those of \<open>commands\<close>;
  the code the hook returns is dropped, and the loop goes on with the remaining
  handlers.
\<close>

theorem hook_list_after_commands:
  assumes "has_change h" and "monitor_defn h ''__key'' = Some (Plain (Str mk))" and "mk \<notin> T"
    and "run_commands sh (monitor_defn h) ''commands'' w = (Inr res, w1, acts1)"
    and "hook = (if res = 0 then ''completed'' else ''error'')"
    and "monitor_defn h ''__name'' = Some (Plain (Str nm))"
    and "\<forall>ms. monitor_defn h hook \<noteq> Some (Searches ms)"
    and "cmds = map (str_replace ''_MONITOR_NAME_'' nm) (command_list (monitor_defn h hook))"
    and "codes = exit_codes sh cmds w1"
  shows "\<exists>w2. handlers_loop sh False (h # hs) T w =
           (case handlers_loop sh False hs (insert mk T) w2 of
              (r, w3, acts3) \<Rightarrow>
                (r, w3, Printed (''Executing '' @ mk) # Called mk ''commands'' # acts1
                   @ Called mk hook # take (executed codes) (map2 Ran cmds codes)
                   @ Printed [] # acts3))"
proof -
  let ?d = "monitor_defn h"
  obtain r2 w2 acts2 where hk: "run_commands sh ?d hook w1 = (r2, w2, acts2)"
    by (cases "run_commands sh ?d hook w1")
  from run_commands_trace [OF assms(6,7), of sh w1] hk assms(8,9)
  have r2: "r2 = Inr (phase_result codes)"
    and acts2: "acts2 = take (executed codes) (map2 Ran cmds codes)"
    by simp_all
  from assms(4,5) hk r2
  have "run_pipeline sh False ?d mk w =
      (Inr (), w2, Printed (''Executing '' @ mk) # Called mk ''commands'' # acts1
         @ Called mk hook # acts2 @ [Printed []])"
    by (simp add: run_pipeline_def)
  with handlers_loop_fire [OF assms(1-3), of sh False hs w] acts2
  have "handlers_loop sh False (h # hs) T w =
           (case handlers_loop sh False hs (insert mk T) w2 of
              (r, w3, acts3) \<Rightarrow>
                (r, w3, Printed (''Executing '' @ mk) # Called mk ''commands'' # acts1
                   @ Called mk hook # take (executed codes) (map2 Ran cmds codes)
                   @ Printed [] # acts3))"
    by (simp split: prod.splits)
  then show ?thesis ..
qed

text \<open>
  \<open>make\<close> succeeds, so \<open>completed\<close> is called; its first command \<open>false\<close> fails,
  its second command is not run, and the loop ends normally.
\<close>

theorem hook_list_after_commands_witness:
  "handlers_loop sh_false False
     [changed_handler ''/src''
        (build_defn [(''commands'', Plain (Str ''make'')),
                     (''completed'', Plain (Strs [''false'', ''echo done'']))])] {} ()
   = (Inr {''w.yaml:build''}, (),
      [Printed ''Executing w.yaml:build'', Called ''w.yaml:build'' ''commands'', Ran ''make'' 0,
       Called ''w.yaml:build'' ''completed'', Ran ''false'' 1, Printed []])"
proof -
  let ?d = "build_defn [(''commands'', Plain (Str ''make'')),
                     (''completed'', Plain (Strs [''false'', ''echo done'']))]"
  let ?h = "changed_handler ''/src'' ?d"
  have a: "has_change ?h" "monitor_defn ?h ''__key'' = Some (Plain (Str ''w.yaml:build''))"
    "''w.yaml:build'' \<notin> ({} :: string set)"
    "run_commands sh_false (monitor_defn ?h) ''commands'' () = (Inr 0, (), [Ran ''make'' 0])"
    "''completed'' = (if (0::int) = 0 then ''completed'' else ''error'')"
    "monitor_defn ?h ''__name'' = Some (Plain (Str ''build''))"
    "\<forall>ms. monitor_defn ?h ''completed'' \<noteq> Some (Searches ms)"
    "[''false'', ''echo done''] =
       map (str_replace ''_MONITOR_NAME_'' ''build'') (command_list (monitor_defn ?h ''completed''))"
    "[1, 0] = exit_codes sh_false [''false'', ''echo done''] ()"
    by (simp_all add: changed_handler_def build_defn_def has_change_def run_commands_def
        command_list_def sh_false_def str_replace.simps)
  from hook_list_after_commands [OF a, of "[]"] show ?thesis
    by (simp add: handlers_loop.simps executed_def)
qed

text \<open>
  Claim C4 as stated fails: the hook list \<open>completed\<close> holds \<open>false\<close> and
  \<open>echo done\<close>, and after the non-zero exit of \<open>false\<close> the command \<open>echo done\<close>
  is not run.
\<close>

theorem failing_hook_command_ends_hook_list:
  "command_list (build_defn [(''completed'', Plain (Strs [''false'', ''echo done'']))] ''completed'')
     = [''false'', ''echo done'']
   \<and> snd (snd (start_triggered sh_false (\<lambda>f. False)
        (watcher False None
           [changed_handler ''/src''
              (build_defn [(''completed'', Plain (Strs [''false'', ''echo done'']))])]) ()))
     = [Printed ''Executing w.yaml:build'', Called ''w.yaml:build'' ''commands'',
        Called ''w.yaml:build'' ''completed'', Ran ''false'' 1, Printed []]"
  by (simp add: start_triggered_def has_skip_file_def watcher_def changed_handler_def
        build_defn_def handlers_loop.simps has_change_def run_pipeline_def run_commands_def
        command_list_def sh_false_def str_replace.simps)

section \<open>The placeholder\<close>








section \<open>Expansion of the globs\<close>

lemma iglob_loop_eq:
  "iglob_loop ps d m (found, fw) =
     (found \<or> ps \<noteq> [], fw\<lparr>event_handlers := event_handlers fw @ map (\<lambda>p. new_handler p d m) ps\<rparr>)"
  by (induction ps arbitrary: found fw) (simp_all add: add_monitor_def)

lemma paths_loop_eq:
  "paths_loop iglob d m gs (found, pg, fw) =
     (found \<or> (\<exists>g \<in> set gs. iglob g \<noteq> []),
      (if gs = [] then pg else Some (last gs)),
      fw\<lparr>event_handlers := event_handlers fw @ concat (map (\<lambda>g. map (\<lambda>p. new_handler p d m) (iglob g)) gs)\<rparr>)"
  by (induction gs arbitrary: found pg fw) (auto simp: iglob_loop_eq)

lemma search_step_eq:
  assumes "paths m = Some ps" and "globs = (case ps of Str s \<Rightarrow> [s] | Strs ss \<Rightarrow> ss)"
  shows "search_step iglob d m fw =
     (if globs \<noteq> [] \<and> (\<forall>g \<in> set globs. iglob g = []) then
        (if exit_on_error (args fw) then Inl (Exit 1) else Inr (),
         print_line fw (''ERROR: No glob expansion for: '' @ last globs @ ''.''))
      else
        (Inr (), fw\<lparr>event_handlers := event_handlers fw
                     @ concat (map (\<lambda>g. map (\<lambda>p. new_handler p d m) (iglob g)) globs)\<rparr>))"
proof (cases "globs \<noteq> [] \<and> (\<forall>g \<in> set globs. iglob g = [])")
  case True
  then have "concat (map (\<lambda>g. map (\<lambda>p. new_handler p d m) (iglob g)) globs) = []"
    by simp
  with True assms show ?thesis
    by (simp add: search_step_def paths_loop_eq print_line_def Let_def)
next
  case False
  with assms show ?thesis
    by (auto simp: search_step_def paths_loop_eq)
qed




section \<open>Defaults of a document\<close>

lemma search_step_handlers:
  assumes "search_step iglob d m fw = (r, fw')"
  shows "\<exists>new. event_handlers fw' = event_handlers fw @ new \<and> (\<forall>h \<in> set new. monitor_defn h = d)"
    and "monitor_defns_defaults fw' = monitor_defns_defaults fw"
proof -
  have both: "(\<exists>new. event_handlers fw' = event_handlers fw @ new \<and> (\<forall>h \<in> set new. monitor_defn h = d))
      \<and> monitor_defns_defaults fw' = monitor_defns_defaults fw"
  proof (cases "paths m")
    case None
    with assms have "fw' = fw" by (simp add: search_step_def)
    then show ?thesis by simp
  next
    case (Some ps)
    define globs where "globs = (case ps of Str s \<Rightarrow> [s] | Strs ss \<Rightarrow> ss)"
    define new where "new = concat (map (\<lambda>g. map (\<lambda>p. new_handler p d m) (iglob g)) globs)"
    have new: "\<forall>h \<in> set new. monitor_defn h = d"
      by (auto simp: new_def new_handler_def)
    note eq = trans [OF assms [symmetric] search_step_eq [OF Some globs_def, of iglob d fw]]
    show ?thesis
    proof (cases "globs \<noteq> [] \<and> (\<forall>g \<in> set globs. iglob g = [])")
      case True
      with eq have "fw' = print_line fw (''ERROR: No glob expansion for: '' @ last globs @ ''.'')"
        by simp
      then show ?thesis by (simp add: print_line_def)
    next
      case False
      with eq have "fw' = fw\<lparr>event_handlers := event_handlers fw @ new\<rparr>"
        unfolding new_def by simp
      with new show ?thesis by simp
    qed
  qed
  from both show "\<exists>new. event_handlers fw' = event_handlers fw @ new \<and> (\<forall>h \<in> set new. monitor_defn h = d)" ..
  from both show "monitor_defns_defaults fw' = monitor_defns_defaults fw" ..
qed

lemma searches_loop_handlers:
  "searches_loop iglob d ms fw = (r, fw') \<Longrightarrow>
   (\<exists>new. event_handlers fw' = event_handlers fw @ new \<and> (\<forall>h \<in> set new. monitor_defn h = d))
   \<and> monitor_defns_defaults fw' = monitor_defns_defaults fw"
proof (induction ms arbitrary: fw)
  case Nil
  then show ?case by simp
next
  case (Cons m ms)
  obtain r1 fw1 where s: "search_step iglob d m fw = (r1, fw1)"
    by (cases "search_step iglob d m fw")
  from search_step_handlers [OF s] obtain new1 where
    n1: "event_handlers fw1 = event_handlers fw @ new1" "\<forall>h \<in> set new1. monitor_defn h = d"
    and d1: "monitor_defns_defaults fw1 = monitor_defns_defaults fw"
    by blast
  show ?case
  proof (cases r1)
    case (Inl e)
    with Cons.prems s have "fw' = fw1" by simp
    with n1 d1 show ?thesis by blast
  next
    case (Inr u)
    with Cons.prems s have "searches_loop iglob d ms fw1 = (r, fw')" by simp
    from Cons.IH [OF this] obtain new2 where
      "event_handlers fw' = event_handlers fw1 @ new2" "\<forall>h \<in> set new2. monitor_defn h = d"
      and "monitor_defns_defaults fw' = monitor_defns_defaults fw1"
      by blast
    with n1 d1 have "event_handlers fw' = event_handlers fw @ (new1 @ new2)"
      "\<forall>h \<in> set (new1 @ new2). monitor_defn h = d"
      "monitor_defns_defaults fw' = monitor_defns_defaults fw"
      by auto
    then show ?thesis by blast
  qed
qed

lemma defn_step_searches:
  assumes "n \<noteq> ''__defaults__''" and "defn_step iglob source (n, d0) fw = (r, fw')"
  shows "fw' = fw
       \<or> (\<exists>ms. searches_loop iglob
                ((monitor_defns_defaults fw ++ d0)
                   (''__name'' \<mapsto> Plain (Str n), ''__key'' \<mapsto> Plain (Str (source @ '':'' @ n))))
                ms fw = (r, fw'))"
proof -
  let ?d = "(monitor_defns_defaults fw ++ d0)
            (''__name'' \<mapsto> Plain (Str n), ''__key'' \<mapsto> Plain (Str (source @ '':'' @ n)))"
  from assms have eq:
    "(case ?d ''searches'' of
        None \<Rightarrow> (Inl (KeyError ''searches''), fw)
      | Some (Plain (Str s)) \<Rightarrow> searches_loop iglob ?d [only_paths [s]] fw
      | Some (Plain (Strs [])) \<Rightarrow> (Inl IndexError, fw)
      | Some (Plain (Strs (x # xs))) \<Rightarrow> searches_loop iglob ?d [only_paths (x # xs)] fw
      | Some (Searches []) \<Rightarrow> (Inl IndexError, fw)
      | Some (Searches (y # ys)) \<Rightarrow> searches_loop iglob ?d (y # ys) fw) = (r, fw')"
    unfolding defn_step_def Let_def prod.case by (simp only: if_False)
  show ?thesis
  proof (cases "?d ''searches''")
    case None
    from eq have "fw' = fw" unfolding None by (simp only: option.case prod.inject)
    then show ?thesis ..
  next
    case (Some v)
    show ?thesis
    proof (cases v)
      case (Plain ss)
      show ?thesis
      proof (cases ss)
        case (Str s)
        from eq show ?thesis unfolding Some Plain Str
          by (simp only: option.case field.case strs.case) metis
      next
        case (Strs xs)
        show ?thesis
        proof (cases xs)
          case Nil
          from eq have "fw' = fw" unfolding Some Plain Strs Nil
            by (simp only: option.case field.case strs.case list.case prod.inject)
          then show ?thesis ..
        next
          case (Cons y ys)
          from eq show ?thesis unfolding Some Plain Strs Cons
            by (simp only: option.case field.case strs.case list.case) metis
        qed
      qed
    next
      case (Searches ms)
      show ?thesis
      proof (cases ms)
        case Nil
        from eq have "fw' = fw" unfolding Some Searches Nil
          by (simp only: option.case field.case list.case prod.inject)
        then show ?thesis ..
      next
        case (Cons y ys)
        from eq show ?thesis unfolding Some Searches Cons
          by (simp only: option.case field.case list.case) metis
      qed
    qed
  qed
qed

lemma defn_step_handlers:
  assumes "defn_step iglob source (n, d0) fw = (r, fw')"
  shows "\<exists>new. event_handlers fw' = event_handlers fw @ new
           \<and> (\<forall>h \<in> set new. n \<noteq> ''__defaults__''
                 \<and> monitor_defn h = (monitor_defns_defaults fw ++ d0)
                      (''__name'' \<mapsto> Plain (Str n), ''__key'' \<mapsto> Plain (Str (source @ '':'' @ n))))"
    and "monitor_defns_defaults fw' = (if n = ''__defaults__'' then d0 else monitor_defns_defaults fw)"
proof -
  let ?d = "(monitor_defns_defaults fw ++ d0)
              (''__name'' \<mapsto> Plain (Str n), ''__key'' \<mapsto> Plain (Str (source @ '':'' @ n)))"
  have both: "(\<exists>new. event_handlers fw' = event_handlers fw @ new
           \<and> (\<forall>h \<in> set new. n \<noteq> ''__defaults__'' \<and> monitor_defn h = ?d))
       \<and> monitor_defns_defaults fw' = (if n = ''__defaults__'' then d0 else monitor_defns_defaults fw)"
  proof (cases "n = ''__defaults__''")
    case True
    with assms have "fw' = fw\<lparr>monitor_defns_defaults := d0\<rparr>" by (simp add: defn_step_def)
    with True show ?thesis by simp
  next
    case False
    have stay: "(\<exists>new. event_handlers fw = event_handlers fw @ new
           \<and> (\<forall>h \<in> set new. n \<noteq> ''__defaults__'' \<and> monitor_defn h = ?d))"
      by simp
    from defn_step_searches [OF False assms]
    have "fw' = fw \<or> (\<exists>ms. searches_loop iglob ?d ms fw = (r, fw'))" .
    then show ?thesis
    proof
      assume "fw' = fw"
      with False stay show ?thesis by simp
    next
      assume "\<exists>ms. searches_loop iglob ?d ms fw = (r, fw')"
      then obtain ms where "searches_loop iglob ?d ms fw = (r, fw')" ..
      from searches_loop_handlers [OF this] False show ?thesis by auto
    qed
  qed
  from both show "\<exists>new. event_handlers fw' = event_handlers fw @ new
           \<and> (\<forall>h \<in> set new. n \<noteq> ''__defaults__'' \<and> monitor_defn h = ?d)" ..
  from both show "monitor_defns_defaults fw' = (if n = ''__defaults__'' then d0 else monitor_defns_defaults fw)" ..
qed

lemma defns_loop_handlers:
  "defns_loop iglob source es fw = (r, fw') \<Longrightarrow>
   \<exists>new. event_handlers fw' = event_handlers fw @ new
     \<and> (\<forall>h \<in> set new. \<exists>pre n d0 post. es = pre @ (n, d0) # post \<and> n \<noteq> ''__defaults__''
           \<and> monitor_defn h = (defaults_after pre (monitor_defns_defaults fw) ++ d0)
                (''__name'' \<mapsto> Plain (Str n), ''__key'' \<mapsto> Plain (Str (source @ '':'' @ n))))"
proof (induction es arbitrary: fw)
  case Nil
  then show ?case by simp
next
  case (Cons e es)
  obtain n d0 where e: "e = (n, d0)" by (cases e)
  obtain r1 fw1 where s: "defn_step iglob source (n, d0) fw = (r1, fw1)"
    by (cases "defn_step iglob source (n, d0) fw")
  let ?merge = "\<lambda>dflt n d0. (dflt ++ d0)
      (''__name'' \<mapsto> Plain (Str n), ''__key'' \<mapsto> Plain (Str (source @ '':'' @ n)))"
  from defn_step_handlers [OF s] obtain new1 where
    n1: "event_handlers fw1 = event_handlers fw @ new1"
    and m1: "\<forall>h \<in> set new1. n \<noteq> ''__defaults__'' \<and> monitor_defn h = ?merge (monitor_defns_defaults fw) n d0"
    and d1: "monitor_defns_defaults fw1 = (if n = ''__defaults__'' then d0 else monitor_defns_defaults fw)"
    by blast
  have first: "\<exists>pre n' d' post. (n, d0) # es = pre @ (n', d') # post \<and> n' \<noteq> ''__defaults__''
      \<and> monitor_defn h = ?merge (defaults_after pre (monitor_defns_defaults fw)) n' d'"
    if "h \<in> set new1" for h
  proof -
    from m1 that have "(n, d0) # es = [] @ (n, d0) # es \<and> n \<noteq> ''__defaults__''
      \<and> monitor_defn h = ?merge (defaults_after [] (monitor_defns_defaults fw)) n d0"
      by simp
    then show ?thesis by blast
  qed
  show ?case
  proof (cases r1)
    case (Inl err)
    with Cons.prems e s have "fw' = fw1" by simp
    with n1 first e show ?thesis by blast
  next
    case (Inr u)
    with Cons.prems e s have "defns_loop iglob source es fw1 = (r, fw')" by simp
    from Cons.IH [OF this] obtain new2 where
      n2: "event_handlers fw' = event_handlers fw1 @ new2"
      and m2: "\<forall>h \<in> set new2. \<exists>pre n' d' post. es = pre @ (n', d') # post \<and> n' \<noteq> ''__defaults__''
           \<and> monitor_defn h = ?merge (defaults_after pre (monitor_defns_defaults fw1)) n' d'"
      by blast
    have second: "\<exists>pre n' d' post. (n, d0) # es = pre @ (n', d') # post \<and> n' \<noteq> ''__defaults__''
      \<and> monitor_defn h = ?merge (defaults_after pre (monitor_defns_defaults fw)) n' d'"
      if "h \<in> set new2" for h
    proof -
      from m2 that obtain pre n' d' post where
        "es = pre @ (n', d') # post" "n' \<noteq> ''__defaults__''"
        "monitor_defn h = ?merge (defaults_after pre (monitor_defns_defaults fw1)) n' d'"
        by blast
      with d1 have "(n, d0) # es = ((n, d0) # pre) @ (n', d') # post \<and> n' \<noteq> ''__defaults__''
        \<and> monitor_defn h = ?merge (defaults_after ((n, d0) # pre) (monitor_defns_defaults fw)) n' d'"
        by simp
      then show ?thesis by blast
    qed
    from n1 n2 have "event_handlers fw' = event_handlers fw @ (new1 @ new2)" by simp
    moreover from first second have "\<forall>h \<in> set (new1 @ new2). \<exists>pre n' d' post.
        (n, d0) # es = pre @ (n', d') # post \<and> n' \<noteq> ''__defaults__''
      \<and> monitor_defn h = ?merge (defaults_after pre (monitor_defns_defaults fw)) n' d'"
      by auto
    ultimately show ?thesis unfolding e by blast
  qed
qed

lemma yaml_loop_handlers:
  "yaml_loop iglob docs fw = (r, fw') \<Longrightarrow>
   \<exists>new. event_handlers fw' = event_handlers fw @ new
     \<and> (\<forall>h \<in> set new. \<exists>src es pre n d0 post. (src, es) \<in> set docs
           \<and> es = pre @ (n, d0) # post \<and> n \<noteq> ''__defaults__''
           \<and> monitor_defn h = (source_defaults pre ++ d0)
                (''__name'' \<mapsto> Plain (Str n), ''__key'' \<mapsto> Plain (Str (src @ '':'' @ n))))"
proof (induction docs arbitrary: fw)
  case Nil
  then show ?case by simp
next
  case (Cons doc docs)
  obtain src es where doc: "doc = (src, es)" by (cases doc)
  obtain r1 fw1 where s: "start_monitors iglob src es fw = (r1, fw1)"
    by (cases "start_monitors iglob src es fw")
  let ?ok = "\<lambda>ds h. \<exists>src es pre n d0 post. (src, es) \<in> set ds
           \<and> es = pre @ (n, d0) # post \<and> n \<noteq> ''__defaults__''
           \<and> monitor_defn h = (source_defaults pre ++ d0)
                (''__name'' \<mapsto> Plain (Str n), ''__key'' \<mapsto> Plain (Str (src @ '':'' @ n)))"
  from s have "defns_loop iglob src es (fw\<lparr>monitor_defns_defaults := Map.empty\<rparr>) = (r1, fw1)"
    by (simp add: start_monitors_def)
  from defns_loop_handlers [OF this] obtain new1 where
    n1: "event_handlers fw1 = event_handlers fw @ new1"
    and m1: "\<forall>h \<in> set new1. \<exists>pre n d0 post. es = pre @ (n, d0) # post \<and> n \<noteq> ''__defaults__''
           \<and> monitor_defn h = (source_defaults pre ++ d0)
                (''__name'' \<mapsto> Plain (Str n), ''__key'' \<mapsto> Plain (Str (src @ '':'' @ n)))"
    by (auto simp: source_defaults_def)
  have first: "?ok ((src, es) # docs) h" if "h \<in> set new1" for h
  proof -
    from m1 that obtain pre n d0 post where
      "es = pre @ (n, d0) # post" "n \<noteq> ''__defaults__''"
      "monitor_defn h = (source_defaults pre ++ d0)
                (''__name'' \<mapsto> Plain (Str n), ''__key'' \<mapsto> Plain (Str (src @ '':'' @ n)))"
      by blast
    moreover have "(src, es) \<in> set ((src, es) # docs)" by simp
    ultimately show ?thesis by blast
  qed
  show ?case
  proof (cases r1)
    case (Inl err)
    with Cons.prems doc s have "fw' = fw1" by simp
    with n1 first doc show ?thesis by blast
  next
    case (Inr u)
    with Cons.prems doc s have "yaml_loop iglob docs fw1 = (r, fw')" by simp
    from Cons.IH [OF this] obtain new2 where
      n2: "event_handlers fw' = event_handlers fw1 @ new2"
      and m2: "\<forall>h \<in> set new2. ?ok docs h"
      by blast
    have second: "?ok ((src, es) # docs) h" if "h \<in> set new2" for h
    proof -
      from m2 that obtain src' es' pre n d0 post where
        "(src', es') \<in> set docs" "es' = pre @ (n, d0) # post" "n \<noteq> ''__defaults__''"
        "monitor_defn h = (source_defaults pre ++ d0)
                (''__name'' \<mapsto> Plain (Str n), ''__key'' \<mapsto> Plain (Str (src' @ '':'' @ n)))"
        by blast
      moreover from this(1) have "(src', es') \<in> set ((src, es) # docs)" by simp
      ultimately show ?thesis by blast
    qed
    from n1 n2 have "event_handlers fw' = event_handlers fw @ (new1 @ new2)" by simp
    moreover from first second have "\<forall>h \<in> set (new1 @ new2). ?ok ((src, es) # docs) h"
      by auto
    ultimately show ?thesis unfolding doc by blast
  qed
qed

lemma source_defaults_last:
  "source_defaults pre =
     (case filter (\<lambda>e. fst e = ''__defaults__'') pre of [] \<Rightarrow> Map.empty | ds \<Rightarrow> snd (last ds))"
proof -
  have "defaults_after pre dflt =
     (case filter (\<lambda>e. fst e = ''__defaults__'') pre of [] \<Rightarrow> dflt | ds \<Rightarrow> snd (last ds))" for dflt
    by (induction pre arbitrary: dflt) (auto split: list.splits)
  then show ?thesis by (simp add: source_defaults_def)
qed

text \<open>
  Claim C5, as the program has it. Every handler that \<open>_setup_observers\<close> creates
  belongs to a definition \<open>n\<close> of one document \<open>src\<close>. Its record carries the name
  and the key of that definition, and at every other key the value the definition
  declares, or else the value of the \<open>__defaults__\<close> record that precedes the
  definition in the same document (\<open>source_defaults\<close> of the entries before it: the
  last \<open>__defaults__\<close> among them, nothing when there is none). A value of the
  definition replaces the default value as a whole, and neither the defaults of
  another document nor defaults that follow the definition reach it.
\<close>

theorem defaults_merged_per_source:
  assumes "h \<in> set (event_handlers (snd (setup_observers iglob docs fw)))"
  shows "\<exists>src es pre n d0 post. (src, es) \<in> set docs
       \<and> es = pre @ (n, d0) # post \<and> n \<noteq> ''__defaults__''
       \<and> monitor_defn h ''__name'' = Some (Plain (Str n))
       \<and> monitor_defn h ''__key'' = Some (Plain (Str (src @ '':'' @ n)))
       \<and> (\<forall>k. k \<noteq> ''__name'' \<and> k \<noteq> ''__key'' \<longrightarrow>
             monitor_defn h k = (case d0 k of Some v \<Rightarrow> Some v | None \<Rightarrow> source_defaults pre k))"
proof -
  obtain r fw' where s: "setup_observers iglob docs fw = (r, fw')"
    by (cases "setup_observers iglob docs fw")
  then have "yaml_loop iglob docs (print_line (fw\<lparr>event_handlers := []\<rparr>) ''Monitoring:'') = (r, fw')"
    by (simp add: setup_observers_def)
  from yaml_loop_handlers [OF this] obtain new where
    "event_handlers fw' = event_handlers (print_line (fw\<lparr>event_handlers := []\<rparr>) ''Monitoring:'') @ new"
    and m: "\<forall>h \<in> set new. \<exists>src es pre n d0 post. (src, es) \<in> set docs
           \<and> es = pre @ (n, d0) # post \<and> n \<noteq> ''__defaults__''
           \<and> monitor_defn h = (source_defaults pre ++ d0)
                (''__name'' \<mapsto> Plain (Str n), ''__key'' \<mapsto> Plain (Str (src @ '':'' @ n)))"
    by blast
  then have "event_handlers fw' = new" by (simp add: print_line_def)
  with assms s have "h \<in> set new" by simp
  with m obtain src es pre n d0 post where
    a: "(src, es) \<in> set docs" "es = pre @ (n, d0) # post" "n \<noteq> ''__defaults__''"
    and d: "monitor_defn h = (source_defaults pre ++ d0)
                (''__name'' \<mapsto> Plain (Str n), ''__key'' \<mapsto> Plain (Str (src @ '':'' @ n)))"
    by blast
  have "monitor_defn h ''__name'' = Some (Plain (Str n))"
    "monitor_defn h ''__key'' = Some (Plain (Str (src @ '':'' @ n)))"
    "\<forall>k. k \<noteq> ''__name'' \<and> k \<noteq> ''__key'' \<longrightarrow>
             monitor_defn h k = (case d0 k of Some v \<Rightarrow> Some v | None \<Rightarrow> source_defaults pre k)"
    unfolding d by (simp_all add: map_add_def split: option.splits)
  with a show ?thesis by blast
qed

text \<open>
  The document declares its defaults first: the definition \<open>build\<close> keeps its own
  \<open>commands\<close> and takes \<open>completed\<close> from the defaults.
\<close>

theorem defaults_merged_per_source_witness:
  "map (\<lambda>h. (monitor_defn h ''commands'', monitor_defn h ''completed''))
     (event_handlers (snd (setup_observers glob_src [(''w.yaml'', defaults_first)] (watcher False None []))))
     = [(Some (Plain (Str ''make build'')), Some (Plain (Str ''echo done'')))]
   \<and> monitor_defn
       (hd (event_handlers (snd (setup_observers glob_src [(''w.yaml'', defaults_first)] (watcher False None [])))))
       ''__name'' \<noteq> None"
proof -
  let ?hs = "event_handlers (snd (setup_observers glob_src [(''w.yaml'', defaults_first)] (watcher False None [])))"
  have ev: "map (\<lambda>h. (monitor_defn h ''commands'', monitor_defn h ''completed'')) ?hs
     = [(Some (Plain (Str ''make build'')), Some (Plain (Str ''echo done'')))]"
    by (simp add: setup_observers_def start_monitors_def defn_step_def search_step_def
        add_monitor_def print_line_def new_handler_def only_paths_def glob_src_def watcher_def
        defaults_first_def)
  then have "?hs \<noteq> []" by auto
  then have "hd ?hs \<in> set ?hs" by simp
  from defaults_merged_per_source [OF this] have "monitor_defn (hd ?hs) ''__name'' \<noteq> None"
    by auto
  with ev show ?thesis by blast
qed

text \<open>
  Claim C5 as stated fails: the document declares \<open>__defaults__\<close> with \<open>commands\<close>
  after the definition \<open>build\<close>, and the record of \<open>build\<close> has no \<open>commands\<close>.
\<close>

theorem later_defaults_not_merged:
  "map fst defaults_last = [''build'', ''__defaults__'']
   \<and> map (\<lambda>h. (monitor_defn h ''__name'', monitor_defn h ''commands''))
       (event_handlers (snd (setup_observers glob_src [(''w.yaml'', defaults_last)] (watcher False None []))))
     = [(Some (Plain (Str ''build'')), None)]"
  by (simp add: setup_observers_def start_monitors_def defn_step_def search_step_def
        add_monitor_def print_line_def new_handler_def only_paths_def glob_src_def watcher_def
        defaults_last_def)

end
